theory Spec2Isabelle
  imports Main "HOL-Library.Multiset"
begin

section \<open>Data model\<close>

subsection \<open>JavaScript values\<close>

text \<open>
  Identifiers are MongoDB ObjectIds, kept as their strings. A request parameter that is
  not a well-formed ObjectId is outside the model.
\<close>

type_synonym oid = string

text \<open>
  \<^verbatim>\<open>payload: { type: mongoose.Schema.Types.Mixed }\<close>: any JSON value. Numbers are
  kept as integers; the replay and audit code only reads the properties
  \<^verbatim>\<open>_isDelta\<close> and \<^verbatim>\<open>diff\<close> of a payload.
\<close>

datatype json =
    JNull
  | JBool bool
  | JNum int
  | JStr string
  | JArr "json list"
  | JObj "(string \<times> json) list"

text \<open>
  What \<^verbatim>\<open>parseInt\<close> returns: \<^verbatim>\<open>NaN\<close> or an integer. The infinite results, which
  \<^verbatim>\<open>parseInt\<close> gives for a numeral beyond the range of a double, are outside the model.
\<close>

datatype jsnum = NaN | Num int

text \<open>The result of \<^verbatim>\<open>new Date(x)\<close>: milliseconds since the epoch, or an invalid date.\<close>

datatype date = InvalidDate | Date int

text \<open>
  What a call can throw. \<open>CastError\<close> is Mongoose rejecting a query bound it cannot cast
  to the schema type (\<^verbatim>\<open>NaN\<close> for a Number, an invalid date for a Date);
  \<open>TypeError\<close> is a property read on \<^verbatim>\<open>null\<close>; \<open>DuplicateKey\<close> is a unique index
  refusing an insert.
\<close>

datatype error = CastError | TypeError | DuplicateKey | ConcurrentVersionConflict

subsection \<open>The FinancialEvent schema\<close>

text \<open>
  The fields of \<^verbatim>\<open>financialEventSchema\<close>. \<open>eid\<close> is the document's \<^verbatim>\<open>_id\<close>. The
  stamps \<^verbatim>\<open>createdAt\<close> and \<^verbatim>\<open>updatedAt\<close> that \<^verbatim>\<open>timestamps: true\<close> adds are read
  by none of the code here and are left out. A version is kept as an integer.
\<close>

datatype eventType =
    TX_CREATED | TX_UPDATED | TX_DELETED
  | WS_CREATED | WS_UPDATED | WS_MEMBER_ADDED
  | BUDGET_EXCEEDED | SYSTEM_AUDIT_LOG

record metadata =
  deviceId :: "string option"
  ipAddress :: "string option"
  userAgent :: "string option"
  correlationId :: "string option"
  timestamp :: int

record event =
  eid :: oid
  userId :: oid
  eventType :: eventType
  entityType :: string
  entityId :: oid
  payload :: json
  previousEventId :: "oid option"
  metadata :: metadata
  checksum :: string
  version :: int

text \<open>The event collection, in insertion order.\<close>

type_synonym store = "event list"

text \<open>The users that \<^verbatim>\<open>populate('userId', 'name email')\<close> reads.\<close>

record user =
  name :: string
  email :: string

type_synonym users = "oid \<rightharpoonup> user"

section \<open>Queries\<close>

text \<open>\<^verbatim>\<open>FinancialEvent.find(q).sort({ version: 1 })\<close>\<close>

definition find_sorted :: "(event \<Rightarrow> bool) \<Rightarrow> store \<Rightarrow> event list" where
  "find_sorted q st = sort_key version (filter q st)"

section \<open>ForensicReplayEngine\<close>

text \<open>
  Modelled from the spec: \<^verbatim>\<open>eventDiffEngine.reconstruct\<close> (utils/eventDiffEngine.js is
  not among the sources). Section 4.3: replay "starts from an empty state ... and folds
  each event's payload via DiffEngine", in the order of the list it is given. The step
  that applies one event (a delta or a snapshot) is the parameter \<open>applyEvent\<close>.
\<close>

definition reconstruct :: "(json \<Rightarrow> event \<Rightarrow> json) \<Rightarrow> json \<Rightarrow> event list \<Rightarrow> json" where
  "reconstruct applyEvent base events = foldl applyEvent base events"

text \<open>
  \<^verbatim>\<open>replayToTime(entityId, timestamp)\<close>. \<open>newDate\<close> stands for the \<^verbatim>\<open>Date\<close>
  constructor. The result \<open>None\<close> is \<^verbatim>\<open>null\<close>.
\<close>

definition replayToTime ::
  "(string \<Rightarrow> date) \<Rightarrow> (json \<Rightarrow> event \<Rightarrow> json) \<Rightarrow> store \<Rightarrow> oid \<Rightarrow> string \<Rightarrow> error + json option" where
  "replayToTime newDate applyEvent st entity ts =
     (case newDate ts of
        InvalidDate \<Rightarrow> Inl CastError
      | Date targetDate \<Rightarrow>
          (let events = find_sorted (\<lambda>e. entityId e = entity \<and> timestamp (metadata e) \<le> targetDate) st
           in if events = [] then Inr None
              else Inr (Some (reconstruct applyEvent (JObj []) events))))"

text \<open>\<^verbatim>\<open>replayToVersion(entityId, version)\<close>\<close>

definition replayToVersion ::
  "(json \<Rightarrow> event \<Rightarrow> json) \<Rightarrow> store \<Rightarrow> oid \<Rightarrow> jsnum \<Rightarrow> error + json option" where
  "replayToVersion applyEvent st entity ver =
     (case ver of
        NaN \<Rightarrow> Inl CastError
      | Num n \<Rightarrow>
          (let events = find_sorted (\<lambda>e. entityId e = entity \<and> version e \<le> n) st
           in if events = [] then Inr None
              else Inr (Some (reconstruct applyEvent (JObj []) events))))"

text \<open>
  \<^verbatim>\<open>generateAuditTrail(entityId)\<close>. An own-property read \<^verbatim>\<open>x.k\<close> for the keys
  the code uses (\<^verbatim>\<open>_isDelta\<close>, \<^verbatim>\<open>diff\<close>): \<open>None\<close> is \<^verbatim>\<open>undefined\<close>, and
  reading a property of \<^verbatim>\<open>null\<close> throws.
\<close>

fun getProp :: "json \<Rightarrow> string \<Rightarrow> error + json option" where
  "getProp JNull k = Inl TypeError"
| "getProp (JObj kvs) k = Inr (map_of kvs k)"
| "getProp _ k = Inr None"

fun truthy :: "json \<Rightarrow> bool" where
  "truthy JNull = False"
| "truthy (JBool b) = b"
| "truthy (JNum n) = (n \<noteq> 0)"
| "truthy (JStr s) = (s \<noteq> [])"
| "truthy (JArr _) = True"
| "truthy (JObj _) = True"

definition truthy_opt :: "json option \<Rightarrow> bool" where
  "truthy_opt x = (case x of None \<Rightarrow> False | Some j \<Rightarrow> truthy j)"

record auditEntry =
  entry_version :: int
  action :: eventType
  actor :: string
  entry_timestamp :: int
  changes :: "json option"
  entry_correlationId :: "string option"

text \<open>
  The body of the \<^verbatim>\<open>events.map\<close> callback. \<^verbatim>\<open>event.userId\<close> is the populated
  user, \<^verbatim>\<open>null\<close> when the reference does not resolve, so \<^verbatim>\<open>event.userId.name\<close>
  can throw.
\<close>

definition auditEntryOf :: "users \<Rightarrow> event \<Rightarrow> error + auditEntry" where
  "auditEntryOf us event =
     (case us (userId event) of
        None \<Rightarrow> Inl TypeError
      | Some u \<Rightarrow>
          (case getProp (payload event) ''_isDelta'' of
             Inl err \<Rightarrow> Inl err
           | Inr isDelta \<Rightarrow>
               (case (if truthy_opt isDelta then getProp (payload event) ''diff''
                      else Inr (Some (JStr ''FULL_SNAPSHOT''))) of
                  Inl err \<Rightarrow> Inl err
                | Inr ch \<Rightarrow>
                    Inr \<lparr>entry_version = version event,
                         action = eventType event,
                         actor = name u,
                         entry_timestamp = timestamp (metadata event),
                         changes = ch,
                         entry_correlationId = correlationId (metadata event)\<rparr>)))"

text \<open>\<^verbatim>\<open>Array.prototype.map\<close> with a callback that can throw: the first throw ends it.\<close>

fun map_throwing :: "('a \<Rightarrow> error + 'b) \<Rightarrow> 'a list \<Rightarrow> error + 'b list" where
  "map_throwing f [] = Inr []"
| "map_throwing f (x # xs) =
     (case f x of
        Inl err \<Rightarrow> Inl err
      | Inr y \<Rightarrow> (case map_throwing f xs of Inl err \<Rightarrow> Inl err | Inr ys \<Rightarrow> Inr (y # ys)))"

definition generateAuditTrail :: "users \<Rightarrow> store \<Rightarrow> oid \<Rightarrow> error + auditEntry list" where
  "generateAuditTrail us st entity =
     (let events = find_sorted (\<lambda>e. entityId e = entity) st
      in map_throwing (auditEntryOf us) events)"

section \<open>Request parameters\<close>

text \<open>
  A query parameter is a string or absent (\<open>None\<close>); a repeated parameter, which Express
  parses to an array, is outside the model. \<^verbatim>\<open>if (x)\<close> on such a value: absent and
  the empty string are falsy.
\<close>

definition truthy_param :: "string option \<Rightarrow> bool" where
  "truthy_param x = (case x of None \<Rightarrow> False | Some s \<Rightarrow> s \<noteq> [])"

text \<open>
  \<^verbatim>\<open>parseInt\<close> is the builtin of the language; the routes take it as the parameter
  \<open>parseInt\<close>, a function from the parameter's string to what it returns, so that what
  is proved of a route holds for the builtin as it is.
\<close>

section \<open>Routes\<close>

text \<open>
  A response: the status (200 unless \<^verbatim>\<open>res.status\<close> sets it) and the JSON body,
  \<^verbatim>\<open>{ success: true, ... }\<close> or \<^verbatim>\<open>{ success: false, error: message }\<close>.
\<close>

datatype 'a body = Success 'a | Failure string

record 'a response =
  status :: nat
  body :: "'a body"

text \<open>\<^verbatim>\<open>error.message\<close>; no property depends on the text.\<close>

fun message :: "error \<Rightarrow> string" where
  "message CastError = ''CastError''"
| "message TypeError = ''TypeError''"
| "message DuplicateKey = ''DuplicateKey''"
| "message ConcurrentVersionConflict = ''ConcurrentVersionConflict''"

text \<open>
  The frame of every route: \<^verbatim>\<open>try { ... res.json({ success: true, ... }) }
  catch (error) { res.status(500).json({ success: false, error: error.message }) }\<close>.
\<close>

definition answer :: "error + 'a \<Rightarrow> 'a response" where
  "answer r =
     (case r of
        Inl err \<Rightarrow> \<lparr>status = 500, body = Failure (message err)\<rparr>
      | Inr x \<Rightarrow> \<lparr>status = 200, body = Success x\<rparr>)"

text \<open>\<^verbatim>\<open>GET /api/forensics/replay/:entityId\<close>, with \<^verbatim>\<open>const { time, v } = req.query\<close>.\<close>

definition replay_route ::
  "(string \<Rightarrow> date) \<Rightarrow> (string \<Rightarrow> jsnum) \<Rightarrow> (json \<Rightarrow> event \<Rightarrow> json) \<Rightarrow> store \<Rightarrow> oid \<Rightarrow>
   string option \<Rightarrow> string option \<Rightarrow> (json option) response" where
  "replay_route newDate parseInt applyEvent st entity time v =
     (if truthy_param time then
        answer (replayToTime newDate applyEvent st entity (the time))
      else if truthy_param v then
        answer (replayToVersion applyEvent st entity (parseInt (the v)))
      else \<lparr>status = 400, body = Failure ''Provide time or version (v)''\<rparr>)"

text \<open>\<^verbatim>\<open>GET /api/forensics/audit/:entityId\<close>\<close>

definition audit_route :: "users \<Rightarrow> store \<Rightarrow> oid \<Rightarrow> (auditEntry list) response" where
  "audit_route us st entity = answer (generateAuditTrail us st entity)"

section \<open>EventStore\<close>

text \<open>The chain of an entity: its events in ascending version order.\<close>

definition chain :: "store \<Rightarrow> oid \<Rightarrow> event list" where
  "chain st entity = find_sorted (\<lambda>e. entityId e = entity) st"

text \<open>
  \<^verbatim>\<open>financialEventSchema.index({ entityId: 1, version: 1 }, { unique: true })\<close>: an
  insert that repeats a pair of entity and version is refused.
\<close>

definition insert_event :: "store \<Rightarrow> event \<Rightarrow> error + store" where
  "insert_event st e =
     (if \<exists>x \<in> set st. entityId x = entityId e \<and> version x = version e
      then Inl DuplicateKey
      else Inr (st @ [e]))"

text \<open>
  The digest of an event, \<^verbatim>\<open>SHA-256\<close> over a canonical encoding of its inputs, is a
  parameter: a function of the payload, the previous event's identifier, the entity and
  the version, and of nothing else. The schema's comment on \<^verbatim>\<open>checksum\<close> names the
  payload and the previous event's identifier as its input; a digest of those two is one
  such function.
\<close>

type_synonym digest = "json \<Rightarrow> oid option \<Rightarrow> oid \<Rightarrow> int \<Rightarrow> string"

text \<open>
  Modelled from the spec: \<^verbatim>\<open>append(entityType, entityId, eventType, payload, actor,
  metadata)\<close> (services/eventProcessor.js is not among the sources). Section 4.1: it
  "assigns version = 1 + the current maximum version for entityId", the first version
  being 1; "sets previousEventId to the prior event's identifier", null for the first
  event; the checksum is the "deterministic digest over (payload, previousEventId,
  entityId, version)" of Section 3; a race for the same next version fails with
  \<open>ConcurrentVersionConflict\<close>. \<open>newId\<close> is the identifier generated for the new
  document.
\<close>

definition append ::
  "digest \<Rightarrow> store \<Rightarrow> oid \<Rightarrow> string \<Rightarrow> oid \<Rightarrow> eventType \<Rightarrow> json \<Rightarrow> oid \<Rightarrow> metadata \<Rightarrow>
   error + (store \<times> event)" where
  "append dg st newId etype entity evType pl uid md =
     (let prior = chain st entity;
          ver = (if prior = [] then 1 else 1 + version (last prior));
          prev = (if prior = [] then None else Some (eid (last prior)));
          e = \<lparr>eid = newId, userId = uid, eventType = evType, entityType = etype,
               entityId = entity, payload = pl, previousEventId = prev, metadata = md,
               checksum = dg pl prev entity ver, version = ver\<rparr>
      in case insert_event st e of
           Inl err \<Rightarrow> Inl ConcurrentVersionConflict
         | Inr st' \<Rightarrow> Inr (st', e))"

text \<open>
  The digest as the sources document it. The schema's comment on \<^verbatim>\<open>checksum\<close> reads
  "SHA-256 of payload+previousEventId for immutability validation", and the description of
  the event store "every event includes a SHA-256 hash of its payload and its parent ID";
  the code that computes it (services/eventProcessor.js) is not among the sources.
  \<open>sha\<close> stands for \<^verbatim>\<open>SHA-256\<close> of the encoding of the two; the entity and the version
  are no input.
\<close>

definition schema_digest :: "(json \<Rightarrow> oid option \<Rightarrow> string) \<Rightarrow> digest" where
  "schema_digest sha pl prev entity ver = sha pl prev"


text \<open>The stores that appends build from the empty collection.\<close>

inductive appended :: "digest \<Rightarrow> store \<Rightarrow> bool" for dg :: digest where
  appended_empty: "appended dg []"
| appended_step:
    "appended dg st \<Longrightarrow> append dg st newId etype entity evType pl uid md = Inr (st', e) \<Longrightarrow>
     appended dg st'"

text \<open>
  The version invariant: the events of every entity carry, in insertion order, the
  versions \<open>1, 2, ..., n\<close>.
\<close>

definition versions_of :: "store \<Rightarrow> oid \<Rightarrow> int list" where
  "versions_of st entity = map version (filter (\<lambda>e. entityId e = entity) st)"

definition contiguous :: "store \<Rightarrow> bool" where
  "contiguous st =
     (\<forall>entity \<in> set (map entityId st).
        versions_of st entity = [1..int (length (versions_of st entity))])"

definition unique_index :: "store \<Rightarrow> bool" where
  "unique_index st = distinct (map (\<lambda>e. (entityId e, version e)) st)"

section \<open>IntegrityVerifier\<close>

record verdict =
  valid :: bool
  brokenAtVersion :: "int option"

text \<open>
  Modelled from the spec: the test that \<^verbatim>\<open>verify\<close> applies to one event (Section 4.4,
  "recomputing each event's checksum from its stored fields and previous-event linkage,
  comparing against the stored checksum"). An event is intact after the event with
  identifier \<open>prev\<close> when its link points there and its stored checksum is the digest
  recomputed from its stored fields.
\<close>

definition intact :: "digest \<Rightarrow> oid option \<Rightarrow> event \<Rightarrow> bool" where
  "intact dg prev e \<longleftrightarrow>
     previousEventId e = prev \<and>
     checksum e = dg (payload e) (previousEventId e) (entityId e) (version e)"

text \<open>
  Modelled from the spec: \<^verbatim>\<open>verify(entityId)\<close>, in the source
  \<^verbatim>\<open>eventProcessor.verifyIntegrity\<close> (services/eventProcessor.js is not among the
  sources). Section 4.4: it "walks the chain from version 1, recomputing each event's
  checksum from its stored fields and previous-event linkage, comparing against the stored
  checksum. Returns the first version at which recomputed \<noteq> stored (or previous-link
  broken), else reports the chain valid. This is read-only". \<open>walk\<close> is the loop over
  the chain, \<open>verifyIntegrity\<close> the operation; the store is returned with the verdict,
  as the operation leaves it.
\<close>

fun walk :: "digest \<Rightarrow> oid option \<Rightarrow> event list \<Rightarrow> verdict" where
  "walk dg prev [] = \<lparr>valid = True, brokenAtVersion = None\<rparr>"
| "walk dg prev (e # es) =
     (if intact dg prev e then walk dg (Some (eid e)) es
      else \<lparr>valid = False, brokenAtVersion = Some (version e)\<rparr>)"

definition verifyIntegrity :: "digest \<Rightarrow> store \<Rightarrow> oid \<Rightarrow> verdict \<times> store" where
  "verifyIntegrity dg st entity = (walk dg None (chain st entity), st)"

text \<open>\<^verbatim>\<open>POST /api/forensics/verify/:entityId\<close>, answering \<^verbatim>\<open>{ success: true, ...result }\<close>.\<close>

definition verify_route :: "digest \<Rightarrow> store \<Rightarrow> oid \<Rightarrow> verdict response \<times> store" where
  "verify_route dg st entity =
     (let (result, st') = verifyIntegrity dg st entity
      in (answer (Inr result), st'))"

text \<open>
  Each event of a chain with the identifier of the event before it, and the versions at
  which the chain is broken.
\<close>

fun with_prev :: "oid option \<Rightarrow> event list \<Rightarrow> (oid option \<times> event) list" where
  "with_prev prev [] = []"
| "with_prev prev (e # es) = (prev, e) # with_prev (Some (eid e)) es"

definition broken_versions :: "digest \<Rightarrow> oid option \<Rightarrow> event list \<Rightarrow> int list" where
  "broken_versions dg prev evs =
     map (\<lambda>(p, e). version e) (filter (\<lambda>(p, e). \<not> intact dg p e) (with_prev prev evs))"

section \<open>Differential sync\<close>

datatype operation = CREATE | UPDATE | DELETE

text \<open>
  Modelled from the spec: a logged mutation (models/SyncLog.js is not among the sources),
  with what \<^verbatim>\<open>syncManager.logMutation(userId, deviceId, entity, operation, body)\<close> is
  given and the version that orders a user's mutations.
\<close>

record syncLog =
  log_userId :: oid
  log_deviceId :: string
  log_entity :: json
  log_operation :: operation
  log_changes :: json
  log_version :: int

text \<open>
  Modelled from the spec: \<^verbatim>\<open>syncManager.getDifferentialUpdates(userId, lastVersion)\<close>
  (services/syncManager.js is not among the sources). Section 6: the changes after the
  caller's last version, "ordered ascending by version, empty array if caller is already
  current"; the sync documentation: "fetches all mutations that occurred since the
  client's last synchronization".
\<close>

definition getDifferentialUpdates :: "syncLog list \<Rightarrow> oid \<Rightarrow> int \<Rightarrow> syncLog list" where
  "getDifferentialUpdates logs uid lastVersion =
     sort_key log_version (filter (\<lambda>l. log_userId l = uid \<and> lastVersion < log_version l) logs)"

record delta =
  delta_v :: int
  delta_count :: nat
  delta_changes :: "syncLog list"

text \<open>\<^verbatim>\<open>x || 0\<close> on a number: \<^verbatim>\<open>NaN\<close> and \<open>0\<close> are falsy.\<close>

definition or_zero :: "jsnum \<Rightarrow> int" where
  "or_zero x = (case x of NaN \<Rightarrow> 0 | Num n \<Rightarrow> if n = 0 then 0 else n)"

text \<open>
  \<^verbatim>\<open>parseInt(req.query.v) || 0\<close>. An absent \<^verbatim>\<open>req.query.v\<close> is
  \<^verbatim>\<open>undefined\<close>, which \<^verbatim>\<open>parseInt\<close> reads as the string \<^verbatim>\<open>undefined\<close>.
\<close>

definition lastVersion_of :: "(string \<Rightarrow> jsnum) \<Rightarrow> string option \<Rightarrow> int" where
  "lastVersion_of parseInt qv =
     or_zero (parseInt (case qv of None \<Rightarrow> ''undefined'' | Some s \<Rightarrow> s))"

text \<open>\<^verbatim>\<open>GET /api/sync/delta\<close>\<close>

definition sync_delta_route ::
  "(string \<Rightarrow> jsnum) \<Rightarrow> syncLog list \<Rightarrow> oid \<Rightarrow> string option \<Rightarrow> delta response" where
  "sync_delta_route parseInt logs uid qv =
     (let lastVersion = lastVersion_of parseInt qv;
          changes = getDifferentialUpdates logs uid lastVersion;
          latestVersion = (if length changes > 0 then log_version (last changes) else lastVersion)
      in answer (Inr \<lparr>delta_v = latestVersion, delta_count = length changes,
                         delta_changes = changes\<rparr>))"

section \<open>What the audit trail renders\<close>

text \<open>
  The two kinds of payload of the data model, read off the payload itself. A delta payload
  with changes \<open>d\<close> is an object whose \<^verbatim>\<open>_isDelta\<close> is \<^verbatim>\<open>true\<close> and whose
  \<^verbatim>\<open>diff\<close> is \<open>d\<close>; a snapshot payload is an object whose \<^verbatim>\<open>_isDelta\<close> is
  \<^verbatim>\<open>false\<close> or missing.
\<close>

definition deltaPayload :: "json \<Rightarrow> json \<Rightarrow> bool" where
  "deltaPayload pl d =
     (case pl of
        JObj kvs \<Rightarrow> map_of kvs ''_isDelta'' = Some (JBool True) \<and> map_of kvs ''diff'' = Some d
      | _ \<Rightarrow> False)"

definition snapshotPayload :: "json \<Rightarrow> bool" where
  "snapshotPayload pl =
     (case pl of
        JObj kvs \<Rightarrow> map_of kvs ''_isDelta'' = None \<or> map_of kvs ''_isDelta'' = Some (JBool False)
      | _ \<Rightarrow> False)"

text \<open>
  What an audit entry is to carry for an event: its version, event type, the name of the
  acting user, its timestamp and correlation id, and as change summary the changes of a
  delta payload, the marker \<^verbatim>\<open>FULL_SNAPSHOT\<close> for a snapshot payload.
\<close>

definition renders :: "users \<Rightarrow> event \<Rightarrow> auditEntry \<Rightarrow> bool" where
  "renders us e a \<longleftrightarrow>
     entry_version a = version e \<and>
     action a = eventType e \<and>
     map_option name (us (userId e)) = Some (actor a) \<and>
     entry_timestamp a = timestamp (metadata e) \<and>
     (\<forall>d. deltaPayload (payload e) d \<longrightarrow> changes a = Some d) \<and>
     (snapshotPayload (payload e) \<longrightarrow> changes a = Some (JStr ''FULL_SNAPSHOT'')) \<and>
     entry_correlationId a = correlationId (metadata e)"

text \<open>
  The events that \<^verbatim>\<open>generateAuditTrail\<close> can render: the user reference resolves and
  the payload, which the schema requires, is not \<^verbatim>\<open>null\<close>.
\<close>

definition resolves :: "users \<Rightarrow> event \<Rightarrow> bool" where
  "resolves us e \<longleftrightarrow> us (userId e) \<noteq> None \<and> payload e \<noteq> JNull"

section \<open>A sample collection\<close>

text \<open>
  The scenario of the specification: entity \<^verbatim>\<open>tx1\<close> is created with amount 10 at
  time 100 and updated to amount 20 at time 200. The digest, the step that applies an
  event and the date constructor are given sample values.
\<close>

definition ex_digest :: digest where
  "ex_digest pl prev entity ver =
     (case pl of JObj kvs \<Rightarrow> concat (map fst kvs) | _ \<Rightarrow> '''') @ ''/'' @
     (case prev of None \<Rightarrow> ''null'' | Some p \<Rightarrow> p) @ ''/'' @ entity @ ''/'' @
     replicate (nat ver) (CHR ''i'')"

definition ex_apply :: "json \<Rightarrow> event \<Rightarrow> json" where
  "ex_apply s e =
     (case (s, getProp (payload e) ''_isDelta'', getProp (payload e) ''diff'') of
        (JObj base, Inr (Some (JBool True)), Inr (Some (JObj d))) \<Rightarrow>
          JObj (d @ filter (\<lambda>(k, x). k \<notin> set (map fst d)) base)
      | _ \<Rightarrow> payload e)"

definition ex_newDate :: "string \<Rightarrow> date" where
  "ex_newDate s = (if s = ''1970-01-01T00:00:00.150Z'' then Date 150 else InvalidDate)"

definition ex_md :: "int \<Rightarrow> metadata" where
  "ex_md t = \<lparr>deviceId = Some ''web-default'', ipAddress = None, userAgent = None,
             correlationId = Some ''c1'', timestamp = t\<rparr>"

definition ex_e1 :: event where
  "ex_e1 = \<lparr>eid = ''e1'', userId = ''u1'', eventType = TX_CREATED, entityType = ''Transaction'',
            entityId = ''tx1'', payload = JObj [(''amount'', JNum 10)], previousEventId = None,
            metadata = ex_md 100, checksum = ''amount/null/tx1/i'', version = 1\<rparr>"

definition ex_e2 :: event where
  "ex_e2 = \<lparr>eid = ''e2'', userId = ''u1'', eventType = TX_UPDATED, entityType = ''Transaction'',
            entityId = ''tx1'',
            payload = JObj [(''_isDelta'', JBool True), (''diff'', JObj [(''amount'', JNum 20)])],
            previousEventId = Some ''e1'', metadata = ex_md 200,
            checksum = ''_isDeltadiff/e1/tx1/ii'', version = 2\<rparr>"

definition ex_store :: store where
  "ex_store = [ex_e1, ex_e2]"

definition ex_users :: users where
  "ex_users = [''u1'' \<mapsto> \<lparr>name = ''Ada'', email = ''ada@example.org''\<rparr>]"

definition ex_log :: "oid \<Rightarrow> int \<Rightarrow> syncLog" where
  "ex_log uid n = \<lparr>log_userId = uid, log_deviceId = ''web-default'',
                  log_entity = JObj [(''_id'', JStr ''tx1'')], log_operation = UPDATE,
                  log_changes = JObj [(''amount'', JNum n)], log_version = n\<rparr>"

definition ex_logs :: "syncLog list" where
  "ex_logs = [ex_log ''u1'' 1, ex_log ''u2'' 2, ex_log ''u1'' 4, ex_log ''u1'' 3]"

text \<open>
  The same collection after an out-of-band change: the payload of version 1 is altered
  and the link of version 2 is cleared.
\<close>

definition ex_tampered :: store where
  "ex_tampered = [ex_e2\<lparr>previousEventId := None\<rparr>,
                  ex_e1\<lparr>payload := JObj [(''total'', JNum 10)]\<rparr>]"

text \<open>A sample of what \<^verbatim>\<open>parseInt\<close> returns on the strings used below.\<close>

definition ex_parseInt :: "string \<Rightarrow> jsnum" where
  "ex_parseInt s =
     (if s = ''1'' then Num 1 else if s = ''2'' then Num 2 else if s = ''4'' then Num 4
      else NaN)"

text \<open>
  The second event of \<^verbatim>\<open>tx1\<close> made by another user, and the users left after the
  first user's account has been deleted.
\<close>

definition ex_shared_store :: store where
  "ex_shared_store = [ex_e1, ex_e2\<lparr>userId := ''u2''\<rparr>]"

definition ex_remaining_users :: users where
  "ex_remaining_users = [''u2'' \<mapsto> \<lparr>name = ''Bo'', email = ''bo@example.org''\<rparr>]"





section \<open>Properties of the queries\<close>

lemma set_find_sorted: "set (find_sorted q st) = {e \<in> set st. q e}"
  by (auto simp: find_sorted_def)

lemma sorted_find_sorted: "sorted (map version (find_sorted q st))"
  by (simp add: find_sorted_def)

lemma mset_find_sorted: "mset (find_sorted q st) = filter_mset q (mset st)"
  by (simp add: find_sorted_def)

lemma find_sorted_Nil_iff: "find_sorted q st = [] \<longleftrightarrow> (\<forall>e \<in> set st. \<not> q e)"
proof -
  have "find_sorted q st = [] \<longleftrightarrow> set (find_sorted q st) = {}"
    by simp
  also have "\<dots> \<longleftrightarrow> (\<forall>e \<in> set st. \<not> q e)"
    by (auto simp: find_sorted_def)
  finally show ?thesis .
qed

section \<open>Replay\<close>

text \<open>
  C5: when no event of the entity has a version at or below the bound,
  \<^verbatim>\<open>replayToVersion\<close> returns \<^verbatim>\<open>null\<close>; it does not throw.
\<close>

theorem replayToVersion_null:
  assumes "\<forall>e \<in> set st. entityId e = entity \<longrightarrow> \<not> version e \<le> n"
  shows "replayToVersion applyEvent st entity (Num n) = Inr None"
proof -
  have "find_sorted (\<lambda>e. entityId e = entity \<and> version e \<le> n) st = []"
    using assms by (auto simp: find_sorted_Nil_iff)
  then show ?thesis
    by (simp add: replayToVersion_def)
qed

theorem replayToVersion_null_witness:
  "replayToVersion ex_apply ex_store ''tx1'' (Num 0) = Inr None"
proof -
  have h: "\<forall>e \<in> set ex_store. entityId e = ''tx1'' \<longrightarrow> \<not> version e \<le> 0"
    by (simp add: ex_store_def ex_e1_def ex_e2_def)
  show ?thesis
    using replayToVersion_null [OF h, of ex_apply] by simp
qed

text \<open>
  C6: \<^verbatim>\<open>replayToTime\<close> reconstructs from exactly the events of the entity whose
  timestamp is at or before the bound, each once, in ascending version order, and returns
  \<^verbatim>\<open>null\<close> when there is none.
\<close>

theorem replayToTime_selection:
  assumes "newDate ts = Date t"
  shows "\<exists>evs.
           mset evs = filter_mset (\<lambda>e. entityId e = entity \<and> timestamp (metadata e) \<le> t) (mset st) \<and>
           sorted (map version evs) \<and>
           replayToTime newDate applyEvent st entity ts =
             Inr (if evs = [] then None else Some (reconstruct applyEvent (JObj []) evs))"
proof -
  let ?evs = "find_sorted (\<lambda>e. entityId e = entity \<and> timestamp (metadata e) \<le> t) st"
  have "replayToTime newDate applyEvent st entity ts =
          Inr (if ?evs = [] then None else Some (reconstruct applyEvent (JObj []) ?evs))"
    using assms by (simp add: replayToTime_def)
  then show ?thesis
    using mset_find_sorted sorted_find_sorted by blast
qed

theorem replayToTime_selection_witness:
  "\<exists>evs.
     mset evs = filter_mset (\<lambda>e. entityId e = ''tx1'' \<and> timestamp (metadata e) \<le> 150) (mset ex_store) \<and>
     sorted (map version evs) \<and>
     replayToTime ex_newDate ex_apply ex_store ''tx1'' ''1970-01-01T00:00:00.150Z'' =
       Inr (if evs = [] then None else Some (reconstruct ex_apply (JObj []) evs))"
proof -
  have h: "ex_newDate ''1970-01-01T00:00:00.150Z'' = Date 150"
    by (simp add: ex_newDate_def)
  show ?thesis
    using h by (rule replayToTime_selection)
qed

lemma replayToTime_sample:
  "replayToTime ex_newDate ex_apply ex_store ''tx1'' ''1970-01-01T00:00:00.150Z'' =
     Inr (Some (JObj [(''amount'', JNum 10)]))"
  by (simp add: replayToTime_def find_sorted_def reconstruct_def ex_newDate_def ex_store_def
      ex_e1_def ex_e2_def ex_md_def ex_apply_def)

subsection \<open>Version-bounded replay, one event further\<close>

lemma filter_le_split:
  assumes "sorted (map f xs)" and "a \<le> b"
  shows "filter (\<lambda>x. f x \<le> b) xs =
         filter (\<lambda>x. f x \<le> a) xs @ filter (\<lambda>x. a < f x \<and> f x \<le> b) xs"
  using assms
proof (induction xs)
  case Nil
  then show ?case by simp
next
  case (Cons x xs)
  show ?case
  proof (cases "f x \<le> a")
    case True
    with Cons show ?thesis by (simp add: not_less)
  next
    case False
    with Cons.prems have above: "\<forall>y \<in> set xs. \<not> f y \<le> a"
      by auto
    then have "filter (\<lambda>y. f y \<le> a) xs = []"
      by simp
    moreover have "filter (\<lambda>y. f y \<le> b) xs = filter (\<lambda>y. a < f y \<and> f y \<le> b) xs"
      using above by (intro filter_cong) auto
    ultimately show ?thesis
      using False by simp
  qed
qed

lemma filter_key_unique:
  assumes "distinct (map f xs)" and "x \<in> set xs"
  shows "filter (\<lambda>y. f y = f x) xs = [x]"
  using assms
proof (induction xs)
  case Nil
  then show ?case by simp
next
  case (Cons y ys)
  show ?case
  proof (cases "y = x")
    case True
    with Cons.prems have "\<forall>z \<in> set ys. f z \<noteq> f x"
      by (auto simp: image_iff)
    then have "filter (\<lambda>z. f z = f x) ys = []"
      by simp
    with True show ?thesis by simp
  next
    case False
    with Cons.prems have "x \<in> set ys" and "f y \<noteq> f x"
      by (auto simp: image_iff)
    with Cons show ?thesis by simp
  qed
qed

lemma find_sorted_via_chain:
  "find_sorted (\<lambda>e. entityId e = entity \<and> P e) st = filter P (chain st entity)"
proof -
  have "filter P (chain st entity) = sort_key version (filter P (filter (\<lambda>e. entityId e = entity) st))"
    by (simp add: chain_def find_sorted_def filter_sort)
  also have "filter P (filter (\<lambda>e. entityId e = entity) st) = filter (\<lambda>e. entityId e = entity \<and> P e) st"
    by (simp add: conj_commute)
  finally show ?thesis
    by (simp add: find_sorted_def)
qed

lemma chain_at_version:
  assumes "unique_index st" and "e \<in> set st"
  shows "filter (\<lambda>x. version x = version e) (chain st (entityId e)) = [e]"
proof -
  have "filter (\<lambda>x. version x = version e) (chain st (entityId e)) =
        filter (\<lambda>x. version x = version e) (filter (\<lambda>x. entityId x = entityId e) st)"
    by (simp add: chain_def find_sorted_def sort_key_stable)
  also have "\<dots> = filter (\<lambda>x. (entityId x, version x) = (entityId e, version e)) st"
    by (simp add: conj_commute)
  also have "\<dots> = [e]"
    using assms filter_key_unique [of "\<lambda>x. (entityId x, version x)" st e]
    by (simp add: unique_index_def)
  finally show ?thesis .
qed

lemma find_sorted_next_version:
  assumes "unique_index st" and "e \<in> set st" and "entityId e = entity" and "version e = n + 1"
  shows "find_sorted (\<lambda>x. entityId x = entity \<and> version x \<le> n + 1) st =
         find_sorted (\<lambda>x. entityId x = entity \<and> version x \<le> n) st @ [e]"
proof -
  have srt: "sorted (map version (chain st entity))"
    by (simp add: chain_def sorted_find_sorted)
  have "filter (\<lambda>x. n < version x \<and> version x \<le> n + 1) (chain st entity) =
        filter (\<lambda>x. version x = version e) (chain st entity)"
    using assms(4) by (intro filter_cong) auto
  also have "\<dots> = [e]"
    using chain_at_version [OF assms(1,2)] assms(3) by simp
  finally have "filter (\<lambda>x. version x \<le> n + 1) (chain st entity) =
                filter (\<lambda>x. version x \<le> n) (chain st entity) @ [e]"
    using filter_le_split [OF srt, of n "n + 1"] by simp
  then show ?thesis
    by (simp add: find_sorted_via_chain)
qed

text \<open>
  C3: when the entity has an event at or below version \<open>n\<close> and \<open>e\<close> is its event of
  version \<open>n + 1\<close>, replaying to \<open>n\<close> and then folding \<open>e\<close> onto that state gives the
  state that replaying to \<open>n + 1\<close> gives. The collection obeys the schema's unique index
  on entity and version.
\<close>

theorem replayToVersion_step:
  assumes "unique_index st"
    and "e \<in> set st" and "entityId e = entity" and "version e = n + 1"
    and "\<exists>x \<in> set st. entityId x = entity \<and> version x \<le> n"
  shows "\<exists>s. replayToVersion applyEvent st entity (Num n) = Inr (Some s) \<and>
              replayToVersion applyEvent st entity (Num (n + 1)) =
                Inr (Some (reconstruct applyEvent s [e]))"
proof -
  let ?upto = "find_sorted (\<lambda>x. entityId x = entity \<and> version x \<le> n) st"
  have nonempty: "?upto \<noteq> []"
    using assms(5) by (auto simp: find_sorted_Nil_iff)
  have step: "find_sorted (\<lambda>x. entityId x = entity \<and> version x \<le> n + 1) st = ?upto @ [e]"
    using find_sorted_next_version [OF assms(1-4)] .
  have "replayToVersion applyEvent st entity (Num n) =
          Inr (Some (reconstruct applyEvent (JObj []) ?upto))"
    using nonempty by (simp add: replayToVersion_def)
  moreover have "replayToVersion applyEvent st entity (Num (n + 1)) =
          Inr (Some (reconstruct applyEvent (reconstruct applyEvent (JObj []) ?upto) [e]))"
    by (simp add: replayToVersion_def step reconstruct_def)
  ultimately show ?thesis
    by blast
qed

theorem replayToVersion_step_witness:
  "\<exists>s. replayToVersion ex_apply ex_store ''tx1'' (Num 1) = Inr (Some s) \<and>
        replayToVersion ex_apply ex_store ''tx1'' (Num (1 + 1)) =
          Inr (Some (reconstruct ex_apply s [ex_e2]))"
proof -
  have u: "unique_index ex_store"
    by (simp add: unique_index_def ex_store_def ex_e1_def ex_e2_def)
  have m: "ex_e2 \<in> set ex_store"
    by (simp add: ex_store_def)
  have i: "entityId ex_e2 = ''tx1''" and v: "version ex_e2 = 1 + 1"
    by (simp_all add: ex_e2_def)
  have p: "\<exists>x \<in> set ex_store. entityId x = ''tx1'' \<and> version x \<le> 1"
    by (simp add: ex_store_def ex_e1_def ex_e2_def)
  show ?thesis
    using replayToVersion_step [OF u m i v p] .
qed

section \<open>Audit trail\<close>

lemma auditEntryOf_renders:
  assumes "resolves us e"
  shows "\<exists>a. auditEntryOf us e = Inr a \<and> renders us e a"
proof -
  from assms obtain u where u: "us (userId e) = Some u"
    by (auto simp: resolves_def)
  from assms have "payload e \<noteq> JNull"
    by (simp add: resolves_def)
  then show ?thesis
  proof (cases "payload e")
    case (JObj kvs)
    show ?thesis
    proof (cases "map_of kvs ''_isDelta''")
      case None
      with JObj u show ?thesis
        by (simp add: auditEntryOf_def renders_def deltaPayload_def snapshotPayload_def
            truthy_opt_def)
    next
      case (Some flag)
      with JObj u show ?thesis
        by (cases flag)
          (auto simp: auditEntryOf_def renders_def deltaPayload_def snapshotPayload_def
            truthy_opt_def)
    qed
  qed (use u in \<open>simp_all add: auditEntryOf_def renders_def deltaPayload_def
         snapshotPayload_def truthy_opt_def\<close>)
qed

lemma map_throwing_all2:
  assumes "\<forall>x \<in> set xs. \<exists>y. f x = Inr y \<and> P x y"
  shows "\<exists>ys. map_throwing f xs = Inr ys \<and> list_all2 P xs ys"
  using assms
proof (induction xs)
  case Nil
  then show ?case by simp
next
  case (Cons x xs)
  then obtain y ys where "f x = Inr y" "P x y" "map_throwing f xs = Inr ys" "list_all2 P xs ys"
    by auto
  then show ?case by simp
qed

lemma renders_versions:
  assumes "list_all2 (renders us) evs trail"
  shows "map entry_version trail = map version evs"
  using assms by (induction rule: list_all2_induct) (simp_all add: renders_def)

text \<open>
  On a collection whose user references all resolve, the audit trail has one entry for
  each stored event of the entity, in ascending version order, and each entry renders its
  event: the event's version, its event type (under the key \<^verbatim>\<open>action\<close>), the acting
  user's name, the timestamp, the change summary (under the key \<^verbatim>\<open>changes\<close>) and the
  correlation id.
\<close>

lemma generateAuditTrail_renders:
  assumes "\<forall>e \<in> set st. entityId e = entity \<longrightarrow> resolves us e"
  shows "\<exists>evs trail.
           mset evs = filter_mset (\<lambda>e. entityId e = entity) (mset st) \<and>
           sorted (map version evs) \<and>
           generateAuditTrail us st entity = Inr trail \<and>
           list_all2 (renders us) evs trail \<and>
           sorted (map entry_version trail)"
proof -
  let ?evs = "find_sorted (\<lambda>e. entityId e = entity) st"
  have "\<forall>e \<in> set ?evs. \<exists>a. auditEntryOf us e = Inr a \<and> renders us e a"
    using assms auditEntryOf_renders by (auto simp: set_find_sorted)
  then obtain trail where t: "map_throwing (auditEntryOf us) ?evs = Inr trail"
      "list_all2 (renders us) ?evs trail"
    using map_throwing_all2 by blast
  have "sorted (map entry_version trail)"
    using renders_versions [OF t(2)] sorted_find_sorted by simp
  moreover have "generateAuditTrail us st entity = Inr trail"
    using t(1) by (simp add: generateAuditTrail_def)
  ultimately show ?thesis
    using t(2) mset_find_sorted sorted_find_sorted by blast
qed

lemma generateAuditTrail_sample:
  "generateAuditTrail ex_users ex_store ''tx1'' =
     Inr [\<lparr>entry_version = 1, action = TX_CREATED, actor = ''Ada'', entry_timestamp = 100,
            changes = Some (JStr ''FULL_SNAPSHOT''), entry_correlationId = Some ''c1''\<rparr>,
          \<lparr>entry_version = 2, action = TX_UPDATED, actor = ''Ada'', entry_timestamp = 200,
            changes = Some (JObj [(''amount'', JNum 20)]), entry_correlationId = Some ''c1''\<rparr>]"
  by (simp add: generateAuditTrail_def find_sorted_def auditEntryOf_def truthy_opt_def
      ex_users_def ex_store_def ex_e1_def ex_e2_def ex_md_def)

lemma auditEntryOf_deleted_user:
  assumes "us (userId e) = None"
  shows "auditEntryOf us e = Inl TypeError"
  using assms by (simp add: auditEntryOf_def)

lemma map_throwing_throws:
  assumes "x \<in> set xs" and "f x = Inl err"
  shows "\<exists>err'. map_throwing f xs = Inl err'"
  using assms
proof (induction xs)
  case Nil
  then show ?case by simp
next
  case (Cons y ys)
  then show ?case
    by (cases "f y"; cases "map_throwing f ys") auto
qed

lemma generateAuditTrail_throws:
  assumes "e \<in> set st" and "entityId e = entity" and "us (userId e) = None"
  shows "\<exists>err. generateAuditTrail us st entity = Inl err"
proof -
  have "e \<in> set (find_sorted (\<lambda>x. entityId x = entity) st)"
    using assms(1,2) by (simp add: set_find_sorted)
  moreover have "auditEntryOf us e = Inl TypeError"
    using assms(3) by (rule auditEntryOf_deleted_user)
  ultimately show ?thesis
    unfolding generateAuditTrail_def Let_def by (rule map_throwing_throws)
qed

text \<open>
  C7 says that the audit trail has one entry per stored event for every entity. The code
  does not: entity \<^verbatim>\<open>tx1\<close> has two stored events, the first made by a user whose
  account is deleted, the second by a user who exists; \<^verbatim>\<open>event.userId.name\<close> throws
  on the first, \<^verbatim>\<open>generateAuditTrail\<close> returns no entry at all, and the route
  answers with status 500.
\<close>

theorem generateAuditTrail_deleted_user:
  "generateAuditTrail ex_remaining_users ex_shared_store ''tx1'' = Inl TypeError \<and>
   audit_route ex_remaining_users ex_shared_store ''tx1'' =
     \<lparr>status = 500, body = Failure ''TypeError''\<rparr>"
  by (simp add: audit_route_def answer_def generateAuditTrail_def find_sorted_def
      auditEntryOf_def ex_remaining_users_def ex_shared_store_def ex_e1_def ex_e2_def)

section \<open>The replay route\<close>

lemma status_answer: "status (answer r) = (case r of Inl err \<Rightarrow> 500 | Inr x \<Rightarrow> 200)"
  by (simp add: answer_def split: sum.splits)

lemma body_answer_Success: "body (answer r) = Success x \<longleftrightarrow> r = Inr x"
  by (simp add: answer_def split: sum.splits)

text \<open>
  C10, as stated, fails: a request that supplies both parameters with an empty
  \<^verbatim>\<open>time\<close>, as in \<^verbatim>\<open>?time=&v=2\<close>, is answered from \<^verbatim>\<open>replayToVersion\<close> on the
  parsed \<^verbatim>\<open>v\<close>; the answer changes with \<^verbatim>\<open>v\<close>.
\<close>

theorem replay_route_empty_time_counterexample:
  "replay_route ex_newDate ex_parseInt ex_apply ex_store ''tx1'' (Some '''') (Some ''1'') =
     \<lparr>status = 200, body = Success (Some (JObj [(''amount'', JNum 10)]))\<rparr> \<and>
   replay_route ex_newDate ex_parseInt ex_apply ex_store ''tx1'' (Some '''') (Some ''2'') =
     \<lparr>status = 200, body = Success (Some (JObj [(''amount'', JNum 20)]))\<rparr>"
  by (simp add: replay_route_def truthy_param_def answer_def replayToVersion_def find_sorted_def
      reconstruct_def ex_parseInt_def ex_store_def ex_e1_def ex_e2_def ex_md_def ex_apply_def)

text \<open>An empty \<^verbatim>\<open>time\<close> is falsy: the request is answered as if \<^verbatim>\<open>time\<close> were absent.\<close>

lemma replay_route_empty_time:
  "replay_route newDate parseInt applyEvent st entity (Some []) v =
     replay_route newDate parseInt applyEvent st entity None v"
  by (simp add: replay_route_def truthy_param_def)

text \<open>
  C10, amended: a request with a non-empty \<^verbatim>\<open>time\<close> is answered from
  \<^verbatim>\<open>replayToTime\<close> on that value whatever \<^verbatim>\<open>v\<close> is, present or not: \<^verbatim>\<open>v\<close> is
  neither parsed nor used and the status is not 400.
\<close>

theorem replay_route_time_first:
  assumes "t \<noteq> []"
  shows "replay_route newDate parseInt applyEvent st entity (Some t) v =
           answer (replayToTime newDate applyEvent st entity t) \<and>
         status (replay_route newDate parseInt applyEvent st entity (Some t) v) \<noteq> 400"
proof -
  have "replay_route newDate parseInt applyEvent st entity (Some t) v =
          answer (replayToTime newDate applyEvent st entity t)"
    using assms by (simp add: replay_route_def truthy_param_def)
  then show ?thesis
    by (simp add: status_answer split: sum.splits)
qed

theorem replay_route_time_first_witness:
  "replay_route ex_newDate ex_parseInt ex_apply ex_store ''tx1'' (Some ''1970-01-01T00:00:00.150Z'') (Some ''2'') =
     answer (replayToTime ex_newDate ex_apply ex_store ''tx1'' ''1970-01-01T00:00:00.150Z'') \<and>
   status (replay_route ex_newDate ex_parseInt ex_apply ex_store ''tx1'' (Some ''1970-01-01T00:00:00.150Z'') (Some ''2''))
     \<noteq> 400"
proof -
  have h: "''1970-01-01T00:00:00.150Z'' \<noteq> []"
    by simp
  show ?thesis
    using h by (rule replay_route_time_first)
qed

text \<open>
  C8, as the specification states it, fails: a request with both \<^verbatim>\<open>time\<close> and \<^verbatim>\<open>v\<close>
  is answered with status 200 and the state at that time, not with status 400.
\<close>

theorem replay_route_both_counterexample:
  "replay_route ex_newDate ex_parseInt ex_apply ex_store ''tx1'' (Some ''1970-01-01T00:00:00.150Z'') (Some ''2'') =
     \<lparr>status = 200, body = Success (Some (JObj [(''amount'', JNum 10)]))\<rparr>"
  by (simp add: replay_route_def truthy_param_def answer_def replayToTime_def find_sorted_def
      reconstruct_def ex_newDate_def ex_store_def ex_e1_def ex_e2_def ex_md_def ex_apply_def)

text \<open>
  C8, amended: the status is 400 exactly when neither \<^verbatim>\<open>time\<close> nor \<^verbatim>\<open>v\<close> has a
  non-empty value. A request with a non-empty \<^verbatim>\<open>time\<close> is answered from
  \<^verbatim>\<open>replayToTime\<close>, also when \<^verbatim>\<open>v\<close> is given; a request with a non-empty \<^verbatim>\<open>v\<close>
  and no non-empty \<^verbatim>\<open>time\<close> is answered from \<^verbatim>\<open>replayToVersion\<close> on
  \<^verbatim>\<open>parseInt(v)\<close>. The answer is status 200 with the reconstructed state or \<^verbatim>\<open>null\<close>
  as data, or status 500 when the engine throws.
\<close>

theorem replay_route_amended:
  "(status (replay_route newDate parseInt applyEvent st entity time v) = 400 \<longleftrightarrow>
      \<not> truthy_param time \<and> \<not> truthy_param v) \<and>
   (truthy_param time \<longrightarrow>
      replay_route newDate parseInt applyEvent st entity time v =
        answer (replayToTime newDate applyEvent st entity (the time))) \<and>
   (\<not> truthy_param time \<and> truthy_param v \<longrightarrow>
      replay_route newDate parseInt applyEvent st entity time v =
        answer (replayToVersion applyEvent st entity (parseInt (the v)))) \<and>
   (\<forall>r. answer r = (case r of Inl err \<Rightarrow> \<lparr>status = 500, body = Failure (message err)\<rparr>
                               | Inr (data :: json option) \<Rightarrow> \<lparr>status = 200, body = Success data\<rparr>))"
  by (simp add: replay_route_def status_answer answer_def split: sum.splits)

theorem replay_route_amended_witness:
  "status (replay_route ex_newDate ex_parseInt ex_apply ex_store ''tx1'' None None) = 400 \<and>
   replay_route ex_newDate ex_parseInt ex_apply ex_store ''tx1'' None (Some ''2'') =
     \<lparr>status = 200, body = Success (Some (JObj [(''amount'', JNum 20)]))\<rparr>"
proof -
  have n: "\<not> truthy_param None" and s: "truthy_param (Some ''2'')"
    by (simp_all add: truthy_param_def)
  have p: "ex_parseInt ''2'' = Num 2"
    by (simp add: ex_parseInt_def)
  have r: "replayToVersion ex_apply ex_store ''tx1'' (Num 2) = Inr (Some (JObj [(''amount'', JNum 20)]))"
    by (simp add: replayToVersion_def find_sorted_def reconstruct_def ex_store_def ex_e1_def
        ex_e2_def ex_md_def ex_apply_def)
  have "status (replay_route ex_newDate ex_parseInt ex_apply ex_store ''tx1'' None None) = 400"
    using replay_route_amended [of ex_newDate ex_parseInt ex_apply ex_store "''tx1''" None None] n by simp
  moreover have "replay_route ex_newDate ex_parseInt ex_apply ex_store ''tx1'' None (Some ''2'') =
      \<lparr>status = 200, body = Success (Some (JObj [(''amount'', JNum 20)]))\<rparr>"
    using replay_route_amended [of ex_newDate ex_parseInt ex_apply ex_store "''tx1''" None "Some ''2''"] n s p r
    by (simp add: answer_def)
  ultimately show ?thesis
    by simp
qed

section \<open>Differential sync\<close>






lemma sync_delta_current_sample:
  "sync_delta_route ex_parseInt ex_logs ''u1'' (Some ''4'') =
     \<lparr>status = 200, body = Success \<lparr>delta_v = 4, delta_count = 0, delta_changes = []\<rparr>\<rparr>"
  by (simp add: sync_delta_route_def answer_def getDifferentialUpdates_def lastVersion_of_def
      or_zero_def ex_parseInt_def
      ex_logs_def ex_log_def)


section \<open>The version invariant\<close>

lemma versions_of_contiguous:
  assumes "contiguous st"
  shows "versions_of st entity = [1..int (length (versions_of st entity))]"
proof (cases "entity \<in> set (map entityId st)")
  case True
  with assms show ?thesis
    by (auto simp: contiguous_def)
next
  case False
  then have "filter (\<lambda>e. entityId e = entity) st = []"
    by (auto simp: filter_empty_conv)
  then show ?thesis
    by (simp add: versions_of_def)
qed

lemma chain_contiguous:
  assumes "contiguous st"
  shows "chain st entity = filter (\<lambda>e. entityId e = entity) st"
proof -
  have "sorted (versions_of st entity)"
    using versions_of_contiguous [OF assms, of entity] by (metis sorted_upto)
  then show ?thesis
    by (simp add: chain_def find_sorted_def versions_of_def sort_key_id_if_sorted)
qed

lemma last_version_contiguous:
  assumes "contiguous st" and "chain st entity \<noteq> []"
  shows "version (last (chain st entity)) = int (length (versions_of st entity))"
proof -
  let ?n = "length (versions_of st entity)"
  have ne: "versions_of st entity \<noteq> []"
    using assms by (simp add: chain_contiguous versions_of_def)
  have "version (last (chain st entity)) = last (versions_of st entity)"
    using assms by (simp add: chain_contiguous versions_of_def last_map)
  also have "\<dots> = last [1..int ?n]"
    using versions_of_contiguous [OF assms(1), of entity] by simp
  also have "[1..int ?n] = [1..int ?n - 1] @ [int ?n]"
  proof -
    have "1 \<le> int ?n"
      using ne by (cases "versions_of st entity") simp_all
    then show ?thesis
      by (rule upto_rec2)
  qed
  finally show ?thesis
    by simp
qed

lemma next_version_contiguous:
  assumes "contiguous st"
  shows "(if chain st entity = [] then 1 else 1 + version (last (chain st entity))) =
         1 + int (length (versions_of st entity))"
proof (cases "chain st entity = []")
  case True
  with assms have "versions_of st entity = []"
    by (simp add: chain_contiguous versions_of_def)
  with True show ?thesis by simp
next
  case False
  with assms show ?thesis
    by (simp add: last_version_contiguous)
qed

lemma version_bound_contiguous:
  assumes "contiguous st" and "x \<in> set st"
  shows "1 \<le> version x \<and> version x \<le> int (length (versions_of st (entityId x)))"
proof -
  have "version x \<in> set (versions_of st (entityId x))"
    using assms(2) by (auto simp: versions_of_def)
  then have "version x \<in> set [1..int (length (versions_of st (entityId x)))]"
    using versions_of_contiguous [OF assms(1), of "entityId x"] by simp
  then show ?thesis
    by simp
qed

lemma contiguous_snoc:
  assumes "contiguous st" and "version e = 1 + int (length (versions_of st (entityId e)))"
  shows "contiguous (st @ [e])"
  unfolding contiguous_def
proof
  fix entity
  assume "entity \<in> set (map entityId (st @ [e]))"
  let ?n = "length (versions_of st (entityId e))"
  show "versions_of (st @ [e]) entity = [1..int (length (versions_of (st @ [e]) entity))]"
  proof (cases "entity = entityId e")
    case True
    have "versions_of (st @ [e]) entity = versions_of st (entityId e) @ [1 + int ?n]"
      using True assms(2) by (simp add: versions_of_def)
    also have "\<dots> = [1..int ?n] @ [1 + int ?n]"
      using versions_of_contiguous [OF assms(1), of "entityId e"] by simp
    also have "\<dots> = [1..1 + int ?n]"
      by (simp add: upto_rec2)
    finally show ?thesis
      using True by (simp add: versions_of_def add.commute)
  next
    case False
    then have "versions_of (st @ [e]) entity = versions_of st entity"
      by (auto simp: versions_of_def)
    then show ?thesis
      using versions_of_contiguous [OF assms(1), of entity] by simp
  qed
qed

lemma append_contiguous:
  assumes "contiguous st"
  shows "\<exists>e. append dg st newId etype entity evType pl uid md = Inr (st @ [e], e) \<and>
             entityId e = entity \<and> payload e = pl \<and>
             version e = 1 + int (length (versions_of st entity)) \<and>
             previousEventId e =
               (if chain st entity = [] then None else Some (eid (last (chain st entity)))) \<and>
             checksum e = dg pl (previousEventId e) entity (version e) \<and>
             contiguous (st @ [e])"
proof -
  let ?ver = "1 + int (length (versions_of st entity))"
  let ?prev = "if chain st entity = [] then None else Some (eid (last (chain st entity)))"
  let ?e = "\<lparr>eid = newId, userId = uid, eventType = evType, entityType = etype,
             entityId = entity, payload = pl, previousEventId = ?prev, metadata = md,
             checksum = dg pl ?prev entity ?ver, version = ?ver\<rparr>"
  have free: "\<not> (\<exists>x \<in> set st. entityId x = entity \<and> version x = ?ver)"
    using version_bound_contiguous [OF assms] by fastforce
  have "append dg st newId etype entity evType pl uid md = Inr (st @ [?e], ?e)"
    using free next_version_contiguous [OF assms, of entity]
    by (simp add: append_def insert_event_def Let_def)
  moreover have "contiguous (st @ [?e])"
    using assms by (intro contiguous_snoc) simp_all
  ultimately show ?thesis
    by (intro exI [of _ ?e]) simp
qed

lemma distinct_pairs:
  assumes "\<And>k. distinct (map g (filter (\<lambda>x. f x = k) xs))"
  shows "distinct (map (\<lambda>x. (f x, g x)) xs)"
  using assms
proof (induction xs)
  case Nil
  then show ?case by simp
next
  case (Cons x xs)
  have tail: "distinct (map g (filter (\<lambda>y. f y = k) xs))" for k
    using Cons.prems [of k] by (cases "f x = k") simp_all
  have "(f x, g x) \<notin> set (map (\<lambda>y. (f y, g y)) xs)"
  proof
    assume "(f x, g x) \<in> set (map (\<lambda>y. (f y, g y)) xs)"
    then obtain y where "y \<in> set xs" "f y = f x" "g y = g x"
      by auto
    then have "y \<in> set (filter (\<lambda>z. f z = f x) xs)"
      by simp
    then have "g y \<in> set (map g (filter (\<lambda>z. f z = f x) xs))"
      by (simp only: set_map imageI)
    with \<open>g y = g x\<close> have "g x \<in> set (map g (filter (\<lambda>y. f y = f x) xs))"
      by (simp only:)
    with Cons.prems [of "f x"] show False
      by simp
  qed
  with Cons.IH tail show ?case
    by simp
qed

lemma contiguous_unique_index:
  assumes "contiguous st"
  shows "unique_index st"
proof -
  have "distinct (map version (filter (\<lambda>e. entityId e = k) st))" for k
    using versions_of_contiguous [OF assms, of k] distinct_upto
    by (metis versions_of_def)
  then show ?thesis
    unfolding unique_index_def by (rule distinct_pairs)
qed

lemma contiguous_strictly_increasing:
  assumes "contiguous st"
  shows "sorted_wrt (<) (versions_of st entity)"
proof -
  have "sorted_wrt (<) [1..int (length (versions_of st entity))]"
    by (simp add: sorted_wrt_upto)
  then show ?thesis
    using versions_of_contiguous [OF assms, of entity] by simp
qed

lemma contiguous_empty: "contiguous []"
  by (simp add: contiguous_def)

lemma appended_contiguous:
  assumes "appended dg st"
  shows "contiguous st"
  using assms
proof (induction rule: appended.induct)
  case appended_empty
  show ?case by (rule contiguous_empty)
next
  case (appended_step st newId etype entity evType pl uid md st' e)
  then show ?case
    using append_contiguous [of st dg newId etype entity evType pl uid md] by auto
qed

text \<open>
  C4: on a collection in which every entity's events carry the versions \<open>1, ..., n\<close>,
  an append succeeds, gives the new event the version \<open>n + 1\<close> of its entity, and leaves a
  collection with the same property: every entity's versions are \<open>1, ..., n\<close> without a
  gap, positive, strictly increasing, and no pair of entity and version occurs twice.
\<close>

theorem append_keeps_versions:
  assumes "contiguous st"
  shows "\<exists>st' e. append dg st newId etype entity evType pl uid md = Inr (st', e) \<and>
           version e = 1 + int (length (versions_of st entity)) \<and>
           contiguous st' \<and>
           unique_index st' \<and>
           (\<forall>x \<in> set st'. 1 \<le> version x) \<and>
           (\<forall>k. versions_of st' k = [1..int (length (versions_of st' k))] \<and>
                sorted_wrt (<) (versions_of st' k))"
proof -
  obtain e where e: "append dg st newId etype entity evType pl uid md = Inr (st @ [e], e)"
      "version e = 1 + int (length (versions_of st entity))" "contiguous (st @ [e])"
    using append_contiguous [OF assms] by blast
  have "unique_index (st @ [e])"
    using e(3) by (rule contiguous_unique_index)
  moreover have "\<forall>x \<in> set (st @ [e]). 1 \<le> version x"
    using version_bound_contiguous [OF e(3)] by blast
  moreover have "\<forall>k. versions_of (st @ [e]) k = [1..int (length (versions_of (st @ [e]) k))] \<and>
      sorted_wrt (<) (versions_of (st @ [e]) k)"
    using versions_of_contiguous [OF e(3)] contiguous_strictly_increasing [OF e(3)] by blast
  ultimately show ?thesis
    using e by blast
qed

lemma append_first_sample:
  "append ex_digest [] ''e1'' ''Transaction'' ''tx1'' TX_CREATED (JObj [(''amount'', JNum 10)])
     ''u1'' (ex_md 100) = Inr ([ex_e1], ex_e1)"
  by (simp add: append_def chain_def find_sorted_def insert_event_def ex_digest_def ex_e1_def
      Let_def)

lemma append_second_sample:
  "append ex_digest [ex_e1] ''e2'' ''Transaction'' ''tx1'' TX_UPDATED
     (JObj [(''_isDelta'', JBool True), (''diff'', JObj [(''amount'', JNum 20)])])
     ''u1'' (ex_md 200) = Inr (ex_store, ex_e2)"
  by (simp add: append_def chain_def find_sorted_def insert_event_def ex_digest_def ex_e1_def
      ex_e2_def ex_store_def eval_nat_numeral Let_def)

lemma appended_ex_store: "appended ex_digest ex_store"
  using appended_step [OF appended_step [OF appended_empty append_first_sample] append_second_sample] .

theorem append_keeps_versions_witness:
  "\<exists>st' e. append ex_digest [ex_e1] ''e2'' ''Transaction'' ''tx1'' TX_UPDATED
              (JObj [(''amount'', JNum 20)]) ''u1'' (ex_md 200) = Inr (st', e) \<and>
           version e = 1 + int (length (versions_of [ex_e1] ''tx1'')) \<and>
           contiguous st' \<and>
           unique_index st' \<and>
           (\<forall>x \<in> set st'. 1 \<le> version x) \<and>
           (\<forall>k. versions_of st' k = [1..int (length (versions_of st' k))] \<and>
                sorted_wrt (<) (versions_of st' k))"
proof -
  have h: "contiguous [ex_e1]"
    using appended_contiguous [OF appended_step [OF appended_empty append_first_sample]] .
  show ?thesis
    using h by (rule append_keeps_versions)
qed

section \<open>Checksums\<close>

lemma append_checksum_inputs:
  assumes "append dg st newId etype entity evType pl uid md = Inr (st1, e1)"
    and "append dg st newId' etype' entity evType' pl uid' md' = Inr (st2, e2)"
  shows "checksum e1 = checksum e2"
  using assms by (auto simp: append_def Let_def split: sum.splits)


text \<open>
  With the digest that the schema documents, the first events of two entities created with
  the same payload get the same checksum, whatever \<^verbatim>\<open>SHA-256\<close> is.
\<close>

lemma schema_digest_first_events:
  assumes "append (schema_digest sha) st newId etype entity evType pl uid md = Inr (st', a)"
    and "append (schema_digest sha) st' newId' etype' entity' evType' pl uid' md' = Inr (st'', b)"
    and "chain st entity = []" and "chain st' entity' = []"
  shows "checksum a = checksum b"
  using assms by (auto simp: append_def schema_digest_def Let_def split: sum.splits)







section \<open>Integrity verification\<close>

lemma broken_versions_Cons:
  "broken_versions dg prev (e # es) =
     (if intact dg prev e then [] else [version e]) @ broken_versions dg (Some (eid e)) es"
  by (simp add: broken_versions_def)

lemma walk_broken_versions:
  "walk dg prev evs =
     (case broken_versions dg prev evs of
        [] \<Rightarrow> \<lparr>valid = True, brokenAtVersion = None\<rparr>
      | k # ks \<Rightarrow> \<lparr>valid = False, brokenAtVersion = Some k\<rparr>)"
proof (induction evs arbitrary: prev)
  case Nil
  show ?case by (simp add: broken_versions_def)
next
  case (Cons e es)
  show ?case
    using Cons.IH [of "Some (eid e)"] by (simp add: broken_versions_Cons)
qed

lemma set_broken_versions: "set (broken_versions dg prev evs) \<subseteq> version ` set evs"
proof (induction evs arbitrary: prev)
  case Nil
  show ?case by (simp add: broken_versions_def)
next
  case (Cons e es)
  show ?case
    using Cons.IH [of "Some (eid e)"] by (auto simp: broken_versions_Cons)
qed

lemma sorted_broken_versions:
  assumes "sorted (map version evs)"
  shows "sorted (broken_versions dg prev evs)"
  using assms
proof (induction evs arbitrary: prev)
  case Nil
  show ?case by (simp add: broken_versions_def)
next
  case (Cons e es)
  have "\<forall>k \<in> set (broken_versions dg (Some (eid e)) es). version e \<le> k"
    using Cons.prems set_broken_versions [of dg "Some (eid e)" es] by auto
  with Cons show ?case
    by (simp add: broken_versions_Cons)
qed

lemma sorted_hd_Min:
  fixes xs :: "int list"
  assumes "sorted (k # ks)"
  shows "Min (set (k # ks)) = k"
  using assms by (intro Min_eqI) auto

lemma with_prev_nth:
  assumes "i < length evs"
  shows "with_prev prev evs ! i = (if i = 0 then prev else Some (eid (evs ! (i - 1))), evs ! i)"
  using assms
proof (induction evs arbitrary: prev i)
  case Nil
  then show ?case by simp
next
  case (Cons e es)
  show ?case
  proof (cases i)
    case 0
    then show ?thesis by simp
  next
    case (Suc j)
    with Cons.prems have "j < length es"
      by simp
    with Cons.IH [of j "Some (eid e)"] Suc show ?thesis
      by (cases j) simp_all
  qed
qed

lemma length_with_prev: "length (with_prev prev evs) = length evs"
  by (induction evs arbitrary: prev) simp_all

lemma broken_versions_positions:
  "set (broken_versions dg prev evs) =
     {version (evs ! i) | i. i < length evs \<and>
        \<not> intact dg (if i = 0 then prev else Some (eid (evs ! (i - 1)))) (evs ! i)}"
    (is "?L = ?R")
proof (intro set_eqI iffI)
  fix k
  assume "k \<in> ?L"
  then obtain p e where pe: "(p, e) \<in> set (with_prev prev evs)" "\<not> intact dg p e" "k = version e"
    by (auto simp: broken_versions_def)
  then obtain i where i: "i < length evs" "with_prev prev evs ! i = (p, e)"
    by (auto simp: in_set_conv_nth length_with_prev)
  then have "p = (if i = 0 then prev else Some (eid (evs ! (i - 1))))" and "e = evs ! i"
    using with_prev_nth [of i evs prev] by simp_all
  with pe i(1) show "k \<in> ?R"
    by blast
next
  fix k
  assume "k \<in> ?R"
  then obtain i where i: "i < length evs" "k = version (evs ! i)"
      "\<not> intact dg (if i = 0 then prev else Some (eid (evs ! (i - 1)))) (evs ! i)"
    by blast
  let ?p = "if i = 0 then prev else Some (eid (evs ! (i - 1)))"
  have "(?p, evs ! i) \<in> set (with_prev prev evs)"
    using i(1) with_prev_nth [of i evs prev] nth_mem [of i "with_prev prev evs"]
    by (simp add: length_with_prev)
  with i(2,3) show "k \<in> ?L"
    unfolding broken_versions_def by force
qed

text \<open>
  C2: \<^verbatim>\<open>verify\<close> walks the chain of the entity in ascending version order. When
  every event is intact (its stored checksum is the digest recomputed from its stored
  fields, and its link names the event before it, none for the first) the verdict is
  valid with no broken version; otherwise the verdict is invalid and names the smallest
  version at which an event is not intact. The collection is left as it was.
\<close>

theorem verifyIntegrity_verdict:
  "verifyIntegrity dg st entity =
     (if broken_versions dg None (chain st entity) = []
      then \<lparr>valid = True, brokenAtVersion = None\<rparr>
      else \<lparr>valid = False,
            brokenAtVersion = Some (Min (set (broken_versions dg None (chain st entity))))\<rparr>,
      st) \<and>
   set (broken_versions dg None (chain st entity)) =
     {version (chain st entity ! i) | i. i < length (chain st entity) \<and>
        \<not> intact dg (if i = 0 then None else Some (eid (chain st entity ! (i - 1))))
             (chain st entity ! i)}"
proof -
  let ?bs = "broken_versions dg None (chain st entity)"
  have srt: "sorted ?bs"
    by (intro sorted_broken_versions) (simp add: chain_def sorted_find_sorted)
  have "walk dg None (chain st entity) =
          (if ?bs = [] then \<lparr>valid = True, brokenAtVersion = None\<rparr>
           else \<lparr>valid = False, brokenAtVersion = Some (Min (set ?bs))\<rparr>)"
  proof (cases ?bs)
    case Nil
    then show ?thesis
      by (simp add: walk_broken_versions)
  next
    case (Cons k ks)
    with srt have "Min (set ?bs) = k"
      using sorted_hd_Min [of k ks] by simp
    with Cons show ?thesis
      by (simp add: walk_broken_versions)
  qed
  then show ?thesis
    by (simp add: verifyIntegrity_def broken_versions_positions)
qed

theorem verifyIntegrity_verdict_witness:
  "verifyIntegrity ex_digest ex_store ''tx1'' =
     (\<lparr>valid = True, brokenAtVersion = None\<rparr>, ex_store) \<and>
   verifyIntegrity ex_digest ex_tampered ''tx1'' =
     (\<lparr>valid = False, brokenAtVersion = Some 1\<rparr>, ex_tampered)"
proof -
  have b1: "broken_versions ex_digest None (chain ex_store ''tx1'') = []"
    by (simp add: broken_versions_def intact_def chain_def find_sorted_def ex_digest_def
        ex_store_def ex_e1_def ex_e2_def eval_nat_numeral)
  have b2: "broken_versions ex_digest None (chain ex_tampered ''tx1'') = [1, 2]"
    by (simp add: broken_versions_def intact_def chain_def find_sorted_def ex_digest_def
        ex_tampered_def ex_e1_def ex_e2_def eval_nat_numeral)
  show ?thesis
    using verifyIntegrity_verdict [THEN conjunct1, of ex_digest ex_store "''tx1''"]
      verifyIntegrity_verdict [THEN conjunct1, of ex_digest ex_tampered "''tx1''"] b1 b2
    by simp
qed

subsection \<open>Chains built by append verify\<close>

lemma broken_versions_snoc:
  "broken_versions dg prev (evs @ [x]) =
     broken_versions dg prev evs @
     (if intact dg (if evs = [] then prev else Some (eid (last evs))) x then [] else [version x])"
proof (induction evs arbitrary: prev)
  case Nil
  show ?case by (simp add: broken_versions_def)
next
  case (Cons e es)
  show ?case
    using Cons.IH [of "Some (eid e)"] by (simp add: broken_versions_Cons)
qed

lemma appended_unbroken:
  assumes "appended dg st"
  shows "broken_versions dg None (chain st k) = []"
  using assms
proof (induction arbitrary: k rule: appended.induct)
  case appended_empty
  show ?case by (simp add: chain_def find_sorted_def broken_versions_def)
next
  case (appended_step st newId etype entity evType pl uid md st' new)
  have inv: "contiguous st"
    using appended_step.hyps(1) by (rule appended_contiguous)
  then obtain x where x: "append dg st newId etype entity evType pl uid md = Inr (st @ [x], x)"
      "entityId x = entity" "payload x = pl"
      "previousEventId x =
         (if chain st entity = [] then None else Some (eid (last (chain st entity))))"
      "checksum x = dg pl (previousEventId x) entity (version x)"
      "contiguous (st @ [x])"
    using append_contiguous [of st dg newId etype entity evType pl uid md] by blast
  with appended_step.hyps(2) have st': "st' = st @ [x]"
    by auto
  show ?case
  proof (cases "k = entity")
    case True
    have "chain st' k = chain st entity @ [x]"
      using True x(2) by (simp add: st' chain_contiguous [OF x(6)] chain_contiguous [OF inv])
    moreover have "intact dg (if chain st entity = [] then None
                              else Some (eid (last (chain st entity)))) x"
      using x(2-5) by (simp add: intact_def)
    ultimately show ?thesis
      using appended_step.IH [of entity] by (simp add: broken_versions_snoc)
  next
    case False
    then have "chain st' k = chain st k"
      using x(2) by (simp add: st' chain_contiguous [OF x(6)] chain_contiguous [OF inv])
    then show ?thesis
      using appended_step.IH [of k] by simp
  qed
qed

lemma appended_verifies:
  assumes "appended dg st"
  shows "verifyIntegrity dg st k = (\<lparr>valid = True, brokenAtVersion = None\<rparr>, st)"
  using appended_unbroken [OF assms, of k]
  by (simp add: verifyIntegrity_def walk_broken_versions)

lemma verify_route_sample:
  "verify_route ex_digest ex_tampered ''tx1'' =
     (\<lparr>status = 200, body = Success \<lparr>valid = False, brokenAtVersion = Some 1\<rparr>\<rparr>, ex_tampered)"
  by (simp add: verify_route_def verifyIntegrity_def answer_def intact_def chain_def
      find_sorted_def ex_digest_def ex_tampered_def ex_e1_def ex_e2_def eval_nat_numeral)

end
